theory Spec2Isabelle
  imports Complex_Main "HOL-Library.Word" "HOL-Library.Sublist"
begin

section \<open>Data model\<close>

text \<open>
  The stages of \<^verbatim>\<open>src/FileUtils.ts\<close> exchange records that are either a JavaScript
  string or a Buffer. A string is modelled as a list of characters (one \<^typ>\<open>char\<close> per
  code unit), a Buffer as a list of bytes.
\<close>

type_synonym byte = "8 word"

datatype chunk = Text string | Buffer "byte list"

text \<open>
  Everything a stage does to the outside is an action: a push on its writer, the end of
  its writer, the end of its reader, a log line (logger or console) and a timer. A push
  and an end are taken to succeed.

  Modelled from the spec: the logger (\<^verbatim>\<open>getLoggerFor\<close> of \<^verbatim>\<open>utils/logUtil\<close>) is not among
  the sources. A call of its \<^verbatim>\<open>info\<close>, \<^verbatim>\<open>warn\<close>, \<^verbatim>\<open>error\<close> or \<^verbatim>\<open>debug\<close> is recorded as
  a log line with that level and its text, which is all the specification says of it
  (failures are logged; a warning is not an error).
\<close>

datatype level = Info | Warn | Err | Debug | Console

datatype 'b action = Push 'b | EndWriter | EndReader | Log level string | Sleep nat

text \<open>
  The callbacks a stage registers are driven by three events: the "end" event of its
  writer (the consumer closed the output), a record on its reader, and the "end" event of
  its reader.
\<close>

datatype 'a event = WriterEnd | Data 'a | ReaderEnd

datatype ('a, 'b) item = In "'a event" | Out "'b action"

datatype js_error = TypeError | SyntaxError | IOError

record zip_entry =
  entryName :: string
  getData :: "string + byte list"

text \<open>
  The libraries and the operating system are parameters of the model: glob expansion, the
  file system, the path functions, UTF-8 decoding, the environment table (in the order of
  \<^verbatim>\<open>Object.keys\<close>), adm-zip, zlib, and the regular expression engine. A library call
  that throws returns \<open>None\<close>, or \<open>Inl\<close> of the exception's text.
\<close>

record host =
  glob :: "string \<Rightarrow> string list"
  fs_readFile :: "string \<Rightarrow> byte list option"
  fs_access :: "string \<Rightarrow> bool"
  fs_readdir :: "string \<Rightarrow> string list option"
  path_normalize :: "string \<Rightarrow> string"
  path_join :: "string \<Rightarrow> string \<Rightarrow> string"
  path_resolve :: "string \<Rightarrow> string"
  toString :: "byte list \<Rightarrow> string"
  process_env :: "(string \<times> string) list"
  AdmZip :: "byte list \<Rightarrow> string + zip_entry list"
  zlib_gunzip :: "byte list \<Rightarrow> string + byte list"
  regexp_compiles :: "string \<Rightarrow> bool"
  regexp_replace :: "string \<Rightarrow> string \<Rightarrow> string \<Rightarrow> string \<Rightarrow> string"

definition quoted :: "string \<Rightarrow> string" where
  "quoted s = CHR 0x27 # s @ [CHR 0x27]"

section \<open>String.prototype.replaceAll\<close>

text \<open>
  \<^verbatim>\<open>substitute\<close> and \<^verbatim>\<open>envsub\<close> call \<^verbatim>\<open>x.replaceAll(search, replace)\<close>. The definitions
  follow the steps of the ECMAScript algorithm: \<open>StringIndexOf\<close>, the list of match
  positions (each search resumes \<open>max 1 searchLength\<close> after the last match), and
  \<open>GetSubstitution\<close>, which expands the dollar patterns of the replacement text. With
  a string as search value there are no captures, so a dollar followed by digits or by
  \<open><\<close> is copied as it stands.
\<close>

definition StringIndexOf :: "string \<Rightarrow> string \<Rightarrow> nat \<Rightarrow> nat option" where
  "StringIndexOf str searchValue fromIndex =
     (let len = length str; searchLen = length searchValue in
      if searchValue = [] \<and> fromIndex \<le> len then Some fromIndex
      else if len < searchLen then None
      else List.find (\<lambda>i. take searchLen (drop i str) = searchValue)
             [fromIndex ..< Suc (len - searchLen)])"

lemma StringIndexOf_bounds:
  assumes "StringIndexOf str s i = Some p"
  shows "i \<le> p \<and> p + length s \<le> length str"
proof (cases "s = [] \<and> i \<le> length str")
  case True
  with assms show ?thesis by (simp add: StringIndexOf_def)
next
  case False
  with assms have "\<not> length str < length s"
    and f: "List.find (\<lambda>j. take (length s) (drop j str) = s) [i ..< Suc (length str - length s)] = Some p"
    by (auto simp: StringIndexOf_def Let_def split: if_splits)
  from f obtain k where "k < length [i ..< Suc (length str - length s)]"
    and "p = [i ..< Suc (length str - length s)] ! k"
    unfolding find_Some_iff by blast
  then have "p \<in> set [i ..< Suc (length str - length s)]"
    by (metis nth_mem)
  with \<open>\<not> length str < length s\<close> show ?thesis by auto
qed

function matchPositions :: "string \<Rightarrow> string \<Rightarrow> nat \<Rightarrow> nat list" where
  "matchPositions str searchString position =
     (case StringIndexOf str searchString position of
        None \<Rightarrow> []
      | Some p \<Rightarrow> p # matchPositions str searchString (p + max 1 (length searchString)))"
  by pat_completeness auto
termination
proof (relation "measure (\<lambda>(str, s, i). Suc (length str) - i)")
  show "wf (measure (\<lambda>(str, s, i). Suc (length str) - i))" by simp
next
  fix str s :: string and i p :: nat
  assume "StringIndexOf str s i = Some p"
  then have "i \<le> p \<and> p + length s \<le> length str" by (rule StringIndexOf_bounds)
  then show "((str, s, p + max 1 (length s)), (str, s, i))
      \<in> measure (\<lambda>(str, s, i). Suc (length str) - i)"
    by auto
qed

declare matchPositions.simps [simp del]

fun GetSubstitution :: "string \<Rightarrow> string \<Rightarrow> nat \<Rightarrow> string \<Rightarrow> string" where
  "GetSubstitution matched str position [] = []"
| "GetSubstitution matched str position (c # t) =
     (if c = CHR ''$'' then
        (case t of
           [] \<Rightarrow> [c]
         | d # t' \<Rightarrow>
             if d = CHR ''$'' then CHR ''$'' # GetSubstitution matched str position t'
             else if d = CHR 0x60 then take position str @ GetSubstitution matched str position t'
             else if d = CHR ''&'' then matched @ GetSubstitution matched str position t'
             else if d = CHR 0x27
               then drop (min (position + length matched) (length str)) str
                      @ GetSubstitution matched str position t'
             else c # GetSubstitution matched str position t)
      else c # GetSubstitution matched str position t)"

fun replaceAll_result :: "string \<Rightarrow> string \<Rightarrow> string \<Rightarrow> nat \<Rightarrow> nat list \<Rightarrow> string" where
  "replaceAll_result str searchString replaceValue endOfLastMatch [] = drop endOfLastMatch str"
| "replaceAll_result str searchString replaceValue endOfLastMatch (p # ps) =
     take (p - endOfLastMatch) (drop endOfLastMatch str)
       @ GetSubstitution searchString str p replaceValue
       @ replaceAll_result str searchString replaceValue (p + length searchString) ps"

definition replaceAll_string :: "string \<Rightarrow> string \<Rightarrow> string \<Rightarrow> string" where
  "replaceAll_string str searchString replaceValue =
     replaceAll_result str searchString replaceValue 0 (matchPositions str searchString 0)"

text \<open>
  A search value is a string or a RegExp object (its source and its flags). With a RegExp
  whose flags lack \<open>g\<close>, \<^verbatim>\<open>replaceAll\<close> throws a TypeError before it looks at the text;
  with a global one it hands over to the engine.
\<close>

datatype searchValue = Str string | RegExp string string

fun replaceAll :: "host \<Rightarrow> string \<Rightarrow> searchValue \<Rightarrow> string \<Rightarrow> js_error + string" where
  "replaceAll h str (Str searchString) replaceValue =
     Inr (replaceAll_string str searchString replaceValue)"
| "replaceAll h str (RegExp source flags) replaceValue =
     (if CHR ''g'' \<notin> set flags then Inl TypeError
      else Inr (regexp_replace h source flags str replaceValue))"

section \<open>Stages with an input\<close>

text \<open>
  \<^verbatim>\<open>substitute\<close>, \<^verbatim>\<open>envsub\<close>, \<^verbatim>\<open>getFileFromFolder\<close>, \<^verbatim>\<open>unzipFile\<close> and
  \<^verbatim>\<open>gunzipFile\<close> each keep one flag, \<open>writerClosed\<close>, and register three callbacks.
  A stage is modelled by its reaction to one event: the actions it performs, the new value
  of the flag, and the exception its callback throws, if any. A callback is taken to run
  to its end before the next event is handled.
\<close>

type_synonym 'b reaction = "'b action list \<times> bool \<times> js_error option"

text \<open>
  \<^verbatim>\<open>const reg = regexp ? new RegExp(source) : source\<close>: the RegExp is built without
  flags; the constructor throws a SyntaxError on a source that is no regular expression.
\<close>

definition substitute_reg :: "host \<Rightarrow> string \<Rightarrow> bool \<Rightarrow> js_error + searchValue" where
  "substitute_reg h source regexp =
     (if regexp then (if regexp_compiles h source then Inr (RegExp source []) else Inl SyntaxError)
      else Inr (Str source))"

fun substitute ::
  "host \<Rightarrow> searchValue \<Rightarrow> string \<Rightarrow> string \<Rightarrow> bool \<Rightarrow> string event \<Rightarrow> string reaction" where
  "substitute h reg source replace writerClosed WriterEnd =
     ([Log Info ''Writer closed, so closing reader as well.'', EndReader], True, None)"
| "substitute h reg source replace writerClosed (Data x) =
     (let info = Log Info (''Replacing '' @ quoted source @ '' by '' @ quoted replace @ '' on input text'')
      in case replaceAll h x reg replace of
           Inl e \<Rightarrow> ([info], writerClosed, Some e)
         | Inr y \<Rightarrow> ([info, Push y], writerClosed, None))"
| "substitute h reg source replace writerClosed ReaderEnd =
     (if \<not> writerClosed then [EndWriter] else [], writerClosed, None)"

text \<open>
  \<^verbatim>\<open>envsub\<close> walks the keys of the environment in order and, for a key whose value is
  truthy (a non-empty string), replaces the placeholder in the text obtained so far.
\<close>

definition placeholder :: "string \<Rightarrow> string" where
  "placeholder key = ''${'' @ key @ ''}''"

definition envsub_key :: "string \<Rightarrow> string \<times> string \<Rightarrow> string" where
  "envsub_key x kv = (if snd kv \<noteq> [] then replaceAll_string x (placeholder (fst kv)) (snd kv) else x)"

fun envsub :: "host \<Rightarrow> bool \<Rightarrow> string event \<Rightarrow> string reaction" where
  "envsub h writerClosed WriterEnd =
     ([Log Info ''Writer closed, so closing reader as well.'', EndReader], True, None)"
| "envsub h writerClosed (Data x) =
     ([Log Info ''Replacing environment variable on input text'',
       Push (foldl envsub_key x (process_env h))], writerClosed, None)"
| "envsub h writerClosed ReaderEnd =
     (if \<not> writerClosed then [EndWriter] else [], writerClosed, None)"

fun getFileFromFolder :: "host \<Rightarrow> string \<Rightarrow> bool \<Rightarrow> string event \<Rightarrow> string reaction" where
  "getFileFromFolder h folderPath writerClosed WriterEnd =
     ([Log Info ''Writer closed, so closing reader as well.'', EndReader], True, None)"
| "getFileFromFolder h folderPath writerClosed (Data name) =
     (let filePath = path_join h (path_resolve h folderPath) name;
          info = Log Info (''Reading file at '' @ quoted filePath)
      in case fs_readFile h filePath of
           None \<Rightarrow> ([info], writerClosed, Some IOError)
         | Some file \<Rightarrow> ([info, Push (toString h file)], writerClosed, None))"
| "getFileFromFolder h folderPath writerClosed ReaderEnd =
     (if \<not> writerClosed then [EndWriter] else [], writerClosed, None)"

text \<open>
  The \<^verbatim>\<open>try\<close> block of \<^verbatim>\<open>unzipFile\<close> holds the constructor and the loop over the
  entries, so an exception of \<^verbatim>\<open>getData\<close> ends the loop in the same \<^verbatim>\<open>catch\<close>.
\<close>

fun unzip_entries :: "host \<Rightarrow> bool \<Rightarrow> zip_entry list \<Rightarrow> chunk action list" where
  "unzip_entries h outputAsBuffer [] = []"
| "unzip_entries h outputAsBuffer (entry # entries) =
     Log Info (''Unzipping received file '' @ quoted (entryName entry)) #
     (case getData entry of
        Inl ex \<Rightarrow> [Log Err ''Ignoring invalid ZIP file received'', Log Debug ex]
      | Inr data \<Rightarrow>
          Push (if outputAsBuffer then Buffer data else Text (toString h data))
            # unzip_entries h outputAsBuffer entries)"

fun unzipFile :: "host \<Rightarrow> bool \<Rightarrow> bool \<Rightarrow> byte list event \<Rightarrow> chunk reaction" where
  "unzipFile h outputAsBuffer writerClosed WriterEnd =
     ([Log Info ''Writer closed, so closing reader as well.'', EndReader], True, None)"
| "unzipFile h outputAsBuffer writerClosed (Data data) =
     (case AdmZip h data of
        Inl ex \<Rightarrow> ([Log Err ''Ignoring invalid ZIP file received'', Log Debug ex], writerClosed, None)
      | Inr entries \<Rightarrow> (unzip_entries h outputAsBuffer entries, writerClosed, None))"
| "unzipFile h outputAsBuffer writerClosed ReaderEnd =
     (if \<not> writerClosed then [EndWriter] else [], writerClosed, None)"

fun gunzipFile :: "host \<Rightarrow> bool \<Rightarrow> bool \<Rightarrow> byte list event \<Rightarrow> chunk reaction" where
  "gunzipFile h outputAsBuffer writerClosed WriterEnd =
     ([Log Info ''Writer closed, so closing reader as well.'', EndReader], True, None)"
| "gunzipFile h outputAsBuffer writerClosed (Data data) =
     (case zlib_gunzip h data of
        Inl ex \<Rightarrow> ([Log Err ''Ignoring invalid GZIP file received'', Log Console ex], writerClosed, None)
      | Inr buffer \<Rightarrow>
          ([Log Info ''Unzipping received file'',
            Push (if outputAsBuffer then Buffer buffer else Text (toString h buffer))],
           writerClosed, None))"
| "gunzipFile h outputAsBuffer writerClosed ReaderEnd =
     (Log Console ''reader ended'' # (if \<not> writerClosed then [EndWriter] else []), writerClosed, None)"

text \<open>
  A run of a stage over the events it receives, in the order of their delivery. The trace
  lists each event followed by the actions of its callback. An exception thrown by a
  callback is not caught by the stage, and nothing in the stage ends it or removes its
  callbacks: the run lists the exception and goes on with the events that follow.
\<close>

fun run ::
  "(bool \<Rightarrow> 'a event \<Rightarrow> 'b reaction) \<Rightarrow> bool \<Rightarrow> 'a event list
     \<Rightarrow> ('a, 'b) item list \<times> bool \<times> js_error list" where
  "run stage writerClosed [] = ([], writerClosed, [])"
| "run stage writerClosed (e # es) =
     (case stage writerClosed e of
        (acts, writerClosed', thrown) \<Rightarrow>
          (case run stage writerClosed' es of
             (tr, writerClosed'', errs) \<Rightarrow>
               (In e # map Out acts @ tr, writerClosed'',
                (case thrown of None \<Rightarrow> [] | Some err \<Rightarrow> [err]) @ errs)))"

section \<open>Producers\<close>

text \<open>
  \<^verbatim>\<open>globRead\<close> first expands the pattern, warns when nothing matches, logs one line per
  matched file and reads all of them (\<^verbatim>\<open>Promise.all\<close>: one failed read rejects the
  whole). Its result is the log and either the exception or the contents, which the
  function it returns closes over.
\<close>

definition globRead :: "host \<Rightarrow> string \<Rightarrow> bool \<Rightarrow> chunk action list \<times> (js_error + chunk list)" where
  "globRead h globPattern binary =
     (let jsfiles = glob h globPattern;
          warning =
            (if length jsfiles = 0
             then [Log Warn (''No files found for glob pattern '' @ quoted globPattern
                     @ ''. Double check the pattern if this is unexpected.'')]
             else []);
          reading =
            map (\<lambda>x. Log Info (''Reading file '' @ quoted x @ '' (from glob pattern ''
                         @ quoted globPattern @ '')'')) jsfiles
      in (warning @ reading,
          case those (map (fs_readFile h) jsfiles) of
            None \<Rightarrow> Inl IOError
          | Some files \<Rightarrow>
              Inr (map (\<lambda>file. if binary then Buffer file else Text (toString h file)) files)))"

text \<open>
  The returned function is the loop over the contents. The flag \<open>writerClosed\<close> is set by
  the writer's "end" event; \<open>closes i\<close> tells whether that event is delivered while
  iteration \<open>i\<close> is suspended in its push or its delay. The trace records the delivery.
\<close>

fun globRead_loop ::
  "nat \<Rightarrow> (nat \<Rightarrow> bool) \<Rightarrow> nat \<Rightarrow> bool \<Rightarrow> chunk list \<Rightarrow> (unit, chunk) item list" where
  "globRead_loop wait closes i writerClosed [] = []"
| "globRead_loop wait closes i writerClosed (file # files) =
     (if writerClosed then [Out (Log Info ''Writer closed, so stopping pushing data'')]
      else Out (Push file) # Out (Sleep wait) # (if closes i then [In WriterEnd] else [])
             @ globRead_loop wait closes (Suc i) (writerClosed \<or> closes i) files)"

definition globRead_start ::
  "nat \<Rightarrow> bool \<Rightarrow> (nat \<Rightarrow> bool) \<Rightarrow> bool \<Rightarrow> chunk list \<Rightarrow> (unit, chunk) item list" where
  "globRead_start wait closeOnEnd closes writerClosed files =
     globRead_loop wait closes 0 writerClosed files @ (if closeOnEnd then [Out EndWriter] else [])"

text \<open>
  \<^verbatim>\<open>readFolder\<close> checks the folder, lists it recursively and logs the list; the
  function it returns reads and pushes one listed name after the other.
\<close>

fun join_comma :: "string list \<Rightarrow> string" where
  "join_comma [] = []"
| "join_comma [x] = x"
| "join_comma (x # y # ys) = x @ '','' @ join_comma (y # ys)"

definition readFolder :: "host \<Rightarrow> string \<Rightarrow> string action list \<times> (js_error + string \<times> string list)" where
  "readFolder h folder =
     (let normalizedPath = path_normalize h folder in
      if \<not> fs_access h normalizedPath then ([], Inl IOError)
      else case fs_readdir h normalizedPath of
             None \<Rightarrow> ([], Inl IOError)
           | Some fileNames \<Rightarrow>
               ([Log Info (''Reading these files: '' @ join_comma fileNames)],
                Inr (normalizedPath, fileNames)))"

text \<open>
  The memory check of one iteration: \<open>heapUsed\<close> is the sample in bytes, \<open>maxMemory\<close>
  the configured number, \<open>pause\<close> the configured delay. The figures printed in the
  warning are left out of its text.
\<close>

definition monitor_memory :: "real \<Rightarrow> nat \<Rightarrow> nat \<Rightarrow> string action list" where
  "monitor_memory maxMemory pause heapUsed =
     (if real heapUsed > maxMemory * 1024 * 1024 * 1024
      then [Log Warn ''[readFolder] Phew! too much data...waiting'', Sleep pause]
      else [])"

text \<open>
  \<open>heapUsed i\<close> is the memory sample of iteration \<open>i\<close>. The writer's "end" event can be
  delivered while the iteration waits for the pause or the file (\<open>closesEarly i\<close>, before
  its push) or while it is suspended in the push (\<open>closesLate i\<close>). A failed read throws
  out of the loop.
\<close>

fun readFolder_loop ::
  "host \<Rightarrow> string \<Rightarrow> real \<Rightarrow> nat \<Rightarrow> (nat \<Rightarrow> nat) \<Rightarrow> (nat \<Rightarrow> bool) \<Rightarrow> (nat \<Rightarrow> bool)
     \<Rightarrow> nat \<Rightarrow> bool \<Rightarrow> string list \<Rightarrow> (unit, string) item list \<times> js_error option" where
  "readFolder_loop h normalizedPath maxMemory pause heapUsed closesEarly closesLate i writerClosed [] =
     ([], None)"
| "readFolder_loop h normalizedPath maxMemory pause heapUsed closesEarly closesLate i writerClosed
     (fileName # fileNames) =
     (if writerClosed then ([Out (Log Info ''Writer closed, so stopping pushing data'')], None)
      else
        let before =
              Out (Log Info (''[readFolder] processing '' @ quoted fileName))
                # map Out (monitor_memory maxMemory pause (heapUsed i))
                @ (if closesEarly i then [In WriterEnd] else [])
        in case fs_readFile h (path_join h normalizedPath fileName) of
             None \<Rightarrow> (before, Some IOError)
           | Some file \<Rightarrow>
               (case readFolder_loop h normalizedPath maxMemory pause heapUsed closesEarly closesLate
                       (Suc i) (closesEarly i \<or> closesLate i) fileNames of
                  (tr, r) \<Rightarrow>
                    (before @ Out (Push (toString h file))
                       # (if closesLate i then [In WriterEnd] else []) @ tr, r)))"

definition readFolder_start ::
  "host \<Rightarrow> string \<Rightarrow> real \<Rightarrow> nat \<Rightarrow> (nat \<Rightarrow> nat) \<Rightarrow> (nat \<Rightarrow> bool) \<Rightarrow> (nat \<Rightarrow> bool)
     \<Rightarrow> bool \<Rightarrow> string list \<Rightarrow> (unit, string) item list \<times> js_error option" where
  "readFolder_start h normalizedPath maxMemory pause heapUsed closesEarly closesLate writerClosed fileNames =
     (case readFolder_loop h normalizedPath maxMemory pause heapUsed closesEarly closesLate 0
             writerClosed fileNames of
        (tr, Some err) \<Rightarrow> (tr, Some err)
      | (tr, None) \<Rightarrow> (tr @ [Out EndWriter], None))"

section \<open>Observations on a trace\<close>

fun pushes :: "('a, 'b) item list \<Rightarrow> 'b list" where
  "pushes [] = []"
| "pushes (Out (Push x) # tr) = x # pushes tr"
| "pushes (_ # tr) = pushes tr"

fun pushed :: "'b action list \<Rightarrow> 'b list" where
  "pushed [] = []"
| "pushed (Push x # acts) = x # pushed acts"
| "pushed (_ # acts) = pushed acts"

definition after_close :: "('a, 'b) item list \<Rightarrow> ('a, 'b) item list" where
  "after_close tr = dropWhile (\<lambda>x. x \<noteq> In WriterEnd) tr"

definition count_item :: "('a, 'b) item \<Rightarrow> ('a, 'b) item list \<Rightarrow> nat" where
  "count_item x tr = length (filter (\<lambda>y. y = x) tr)"

text \<open>
  The pipeline calls the function \<^verbatim>\<open>globRead\<close> returned, once, after a successful
  setup; a rejected setup returns no function to call.
\<close>

definition globRead_run ::
  "host \<Rightarrow> string \<Rightarrow> nat \<Rightarrow> bool \<Rightarrow> bool \<Rightarrow> (nat \<Rightarrow> bool) \<Rightarrow> bool
     \<Rightarrow> (unit, chunk) item list \<times> js_error option" where
  "globRead_run h globPattern wait closeOnEnd binary closes writerClosed =
     (case globRead h globPattern binary of
        (logs, Inl err) \<Rightarrow> (map Out logs, Some err)
      | (logs, Inr files) \<Rightarrow>
          (map Out logs @ globRead_start wait closeOnEnd closes writerClosed files, None))"

section \<open>The substitutions in the words of the specification\<close>

text \<open>
  To replace every occurrence of a search text: the text is scanned from the left; where
  the search text starts, the replacement is written and the scan resumes behind the
  occurrence; elsewhere one character is copied.
\<close>

function replace_every :: "string \<Rightarrow> string \<Rightarrow> string \<Rightarrow> string" where
  "replace_every s r [] = []"
| "replace_every s r (c # cs) =
     (if s \<noteq> [] \<and> prefix s (c # cs) then r @ replace_every s r (drop (length s) (c # cs))
      else c # replace_every s r cs)"
  by pat_completeness auto
termination
  by (relation "measure (\<lambda>(s, r, x). length x)") auto






section \<open>A concrete host\<close>

text \<open>
  A small host on which the stages can be run: two text files matched by one pattern, a
  pattern that also matches an unreadable file, a folder with one file, an environment
  with an empty and a non-empty variable, and codecs that reject the empty buffer.
  \<open>demo_env\<close> is the same host with another environment, \<open>demo_zip\<close> the same with
  archives of three entries whose second entry cannot be read, and \<open>demo_nested\<close> the same
  with a folder that holds a file and a subfolder with one file: the recursive listing
  names the subfolder too, and reading a folder as a file fails.
\<close>

definition never :: "nat \<Rightarrow> bool" where
  "never i = False"

definition steady :: "nat \<Rightarrow> nat \<Rightarrow> nat" where
  "steady m i = m"

definition at_first :: "nat \<Rightarrow> bool" where
  "at_first i = (i = 0)"

definition ascii :: "byte list \<Rightarrow> string" where
  "ascii bs = map (\<lambda>b. char_of (unat b)) bs"

definition bytes :: "string \<Rightarrow> byte list" where
  "bytes s = map of_char s"

definition demo :: host where
  "demo = \<lparr> glob = (\<lambda>p. if p = ''*.txt'' then [''a.txt'', ''b.txt'']
                         else if p = ''*.bad'' then [''a.txt'', ''x.bad''] else []),
      fs_readFile = (\<lambda>p. if p = ''a.txt'' then Some (bytes ''hi'')
                        else if p = ''b.txt'' then Some (bytes ''yo'')
                        else if p = ''/data/a.txt'' then Some (bytes ''hi'') else None),
      fs_access = (\<lambda>p. p = ''/data''),
      fs_readdir = (\<lambda>p. if p = ''/data'' then Some [''a.txt''] else None),
      path_normalize = (\<lambda>p. p),
      path_join = (\<lambda>a b. a @ ''/'' @ b),
      path_resolve = (\<lambda>p. p),
      toString = ascii,
      process_env = [(''A'', []), (''HOME'', ''/root'')],
      AdmZip = (\<lambda>d. if d = [] then Inl ''bad zip''
                     else Inr [\<lparr> entryName = ''e1'', getData = Inr d \<rparr>]),
      zlib_gunzip = (\<lambda>d. if d = [] then Inl ''bad gzip'' else Inr d),
      regexp_compiles = (\<lambda>s. True),
      regexp_replace = (\<lambda>src flags str rep. str) \<rparr>"

definition demo_env :: "(string \<times> string) list \<Rightarrow> host" where
  "demo_env env = demo\<lparr>process_env := env\<rparr>"

definition demo_zip :: host where
  "demo_zip = demo\<lparr>AdmZip := (\<lambda>d. Inr [\<lparr> entryName = ''e1'', getData = Inr d \<rparr>,
                                      \<lparr> entryName = ''e2'', getData = Inl ''bad crc'' \<rparr>,
                                      \<lparr> entryName = ''e3'', getData = Inr d \<rparr>])\<rparr>"

definition demo_nested :: host where
  "demo_nested = demo\<lparr>
     fs_readdir := (\<lambda>p. if p = ''/data'' then Some [''a.txt'', ''sub'', ''sub/b.txt''] else None),
     fs_readFile := (\<lambda>p. if p = ''/data/a.txt'' then Some (bytes ''hi'')
                        else if p = ''/data/sub/b.txt'' then Some (bytes ''yo'') else None)\<rparr>"

lemma demo_sel [simp]:
  "glob demo = (\<lambda>p. if p = ''*.txt'' then [''a.txt'', ''b.txt'']
                         else if p = ''*.bad'' then [''a.txt'', ''x.bad''] else [])"
  "fs_readFile demo = (\<lambda>p. if p = ''a.txt'' then Some (bytes ''hi'')
                        else if p = ''b.txt'' then Some (bytes ''yo'')
                        else if p = ''/data/a.txt'' then Some (bytes ''hi'') else None)"
  "fs_access demo = (\<lambda>p. p = ''/data'')"
  "fs_readdir demo = (\<lambda>p. if p = ''/data'' then Some [''a.txt''] else None)"
  "path_normalize demo = (\<lambda>p. p)"
  "path_join demo = (\<lambda>a b. a @ ''/'' @ b)"
  "path_resolve demo = (\<lambda>p. p)"
  "toString demo = ascii"
  "process_env demo = [(''A'', []), (''HOME'', ''/root'')]"
  "AdmZip demo = (\<lambda>d. if d = [] then Inl ''bad zip''
                     else Inr [\<lparr> entryName = ''e1'', getData = Inr d \<rparr>])"
  "zlib_gunzip demo = (\<lambda>d. if d = [] then Inl ''bad gzip'' else Inr d)"
  "regexp_compiles demo = (\<lambda>s. True)"
  "regexp_replace demo = (\<lambda>src flags str rep. str)"
  by (simp_all add: demo_def)

lemma process_env_demo_env [simp]: "process_env (demo_env env) = env"
  by (simp add: demo_env_def)

section \<open>Lemmas on traces\<close>

lemma pushes_append: "pushes (xs @ ys) = pushes xs @ pushes ys"
  by (induction xs rule: pushes.induct) simp_all

lemma those_map_Some:
  "\<forall>x \<in> set xs. f x \<noteq> None \<Longrightarrow> those (map f xs) = Some (map (\<lambda>x. the (f x)) xs)"
  by (induction xs) auto

lemma those_map_None: "x \<in> set xs \<Longrightarrow> f x = None \<Longrightarrow> those (map f xs) = None"
  by (induction xs) (auto split: option.splits)

lemma pushes_globRead_loop_open:
  "\<forall>i. \<not> closes i \<Longrightarrow> pushes (globRead_loop wait closes i False files) = files"
  by (induction files arbitrary: i) simp_all

lemma count_item_append: "count_item x (xs @ ys) = count_item x xs + count_item x ys"
  by (simp add: count_item_def)

lemma count_item_absent: "x \<notin> set tr \<Longrightarrow> count_item x tr = 0"
  by (induction tr) (auto simp: count_item_def)

lemma readFolder_loop_no_end:
  "Out EndWriter \<notin> set (fst (readFolder_loop h np maxMemory pause heapUsed cE cL i wc fileNames))"
proof (induction fileNames arbitrary: i wc)
  case Nil
  then show ?case by simp
next
  case (Cons n ns)
  have "Out EndWriter \<notin> set (fst (readFolder_loop h np maxMemory pause heapUsed cE cL (Suc i)
          (cE i \<or> cL i) ns))"
    by (rule Cons.IH)
  then show ?case
    by (auto simp: monitor_memory_def Let_def split: option.splits prod.splits)
qed

lemma readFolder_loop_open:
  assumes "\<forall>n \<in> set fileNames. fs_readFile h (path_join h np n) \<noteq> None"
    and "\<forall>i. \<not> cE i" and "\<forall>i. \<not> cL i"
  shows "readFolder_loop h np maxMemory pause heapUsed cE cL i False fileNames
     = (concat (map (\<lambda>(k, n). Out (Log Info (''[readFolder] processing '' @ quoted n))
                   # map Out (monitor_memory maxMemory pause (heapUsed k))
                   @ [Out (Push (toString h (the (fs_readFile h (path_join h np n)))))])
                 (zip [i ..< i + length fileNames] fileNames)), None)"
  using assms
proof (induction fileNames arbitrary: i)
  case Nil
  then show ?case by simp
next
  case (Cons n ns)
  from Cons.prems obtain content where f: "fs_readFile h (path_join h np n) = Some content"
    by auto
  have ih: "readFolder_loop h np maxMemory pause heapUsed cE cL (Suc i) False ns
     = (concat (map (\<lambda>(k, n). Out (Log Info (''[readFolder] processing '' @ quoted n))
                   # map Out (monitor_memory maxMemory pause (heapUsed k))
                   @ [Out (Push (toString h (the (fs_readFile h (path_join h np n)))))])
                 (zip [Suc i ..< Suc i + length ns] ns)), None)"
    using Cons.prems by (intro Cons.IH) auto
  have z: "zip [i ..< i + length (n # ns)] (n # ns) = (i, n) # zip [Suc i ..< Suc i + length ns] ns"
    by (simp add: upt_conv_Cons del: upt_Suc)
  have step: "readFolder_loop h np maxMemory pause heapUsed cE cL i False (n # ns)
     = (case readFolder_loop h np maxMemory pause heapUsed cE cL (Suc i) False ns of
          (tr, r) \<Rightarrow> (Out (Log Info (''[readFolder] processing '' @ quoted n))
                         # map Out (monitor_memory maxMemory pause (heapUsed i))
                         @ Out (Push (toString h content)) # tr, r))"
    using f Cons.prems(2,3) by (simp add: Let_def)
  show ?case
    unfolding step z ih by (simp add: f)
qed

lemma pushes_iterations:
  "length ks = length ns \<Longrightarrow>
   pushes (concat (map (\<lambda>(k, n). Out (Log Info (p n)) # map Out (monitor_memory mm pa (hu k))
                                  @ [Out (Push (c n))]) (zip ks ns))) = map c ns"
  by (induction ks ns rule: list_induct2) (simp_all add: pushes_append monitor_memory_def)

lemma count_item_Out_map: "count_item (Out a) (map Out acts) = length (filter (\<lambda>b. b = a) acts)"
  by (induction acts) (auto simp: count_item_def)

lemma count_item_In_map: "count_item (In e) (map Out acts) = 0"
  by (induction acts) (auto simp: count_item_def)

lemma count_item_Cons: "count_item x (y # tr) = (if y = x then 1 else 0) + count_item x tr"
  by (simp add: count_item_def)

lemma run_ends_reader:
  assumes "\<And>wc e. length (filter (\<lambda>b. b = EndReader) (fst (stage wc e)))
              = (if e = WriterEnd then 1 else 0)"
  shows "count_item (Out EndReader) (fst (run stage wc evs))
       = count_item (In WriterEnd) (fst (run stage wc evs))"
proof (induction evs arbitrary: wc)
  case Nil
  then show ?case by (simp add: count_item_def)
next
  case (Cons e es)
  obtain acts wc' r where st: "stage wc e = (acts, wc', r)"
    by (cases "stage wc e") auto
  from assms [of wc e] st
  have n: "length (filter (\<lambda>b. b = EndReader) acts) = (if e = WriterEnd then 1 else 0)"
    by simp
  obtain tr wc'' errs where rn: "run stage wc' es = (tr, wc'', errs)"
    by (cases "run stage wc' es") auto
  from Cons.IH [of wc'] rn
  have "count_item (Out EndReader) tr = count_item (In WriterEnd) tr" by simp
  with st rn n show ?case
    by (simp add: count_item_Cons count_item_append count_item_Out_map count_item_In_map)
qed

lemma unzip_entries_no_EndReader:
  "filter (\<lambda>b. b = EndReader) (unzip_entries h outputAsBuffer entries) = []"
  by (induction entries) (auto split: sum.splits)

lemma pushed_unzip_entries:
  "pushed (unzip_entries h outputAsBuffer entries)
     = map (\<lambda>e. if outputAsBuffer then Buffer (projr (getData e))
                 else Text (toString h (projr (getData e))))
         (takeWhile (\<lambda>e. \<not> isl (getData e)) entries)"
  by (induction entries) (auto split: sum.splits)

lemma unzip_entries_logs_failure:
  "\<exists>e \<in> set entries. isl (getData e) \<Longrightarrow>
   Log Err ''Ignoring invalid ZIP file received'' \<in> set (unzip_entries h outputAsBuffer entries)"
  by (induction entries) (auto split: sum.splits)

lemma unzip_entries_no_end:
  "EndWriter \<notin> set (unzip_entries h outputAsBuffer entries)
   \<and> EndReader \<notin> set (unzip_entries h outputAsBuffer entries)"
  by (induction entries) (auto split: sum.splits)

lemma pushes_dropWhile: "pushes tr = [] \<Longrightarrow> pushes (dropWhile P tr) = []"
  by (induction tr rule: pushes.induct) (auto split: if_splits)

lemma pushes_after_close_append:
  "pushes (after_close tr) = [] \<Longrightarrow> pushes rest = [] \<Longrightarrow> pushes (after_close (tr @ rest)) = []"
  unfolding after_close_def
  by (simp add: dropWhile_append pushes_append pushes_dropWhile)

lemma globRead_loop_closed: "pushes (globRead_loop wait closes i True files) = []"
  by (cases files) simp_all

lemma globRead_loop_after_close:
  "pushes (after_close (globRead_loop wait closes i wc files)) = []"
proof (induction files arbitrary: i wc)
  case Nil
  then show ?case by (simp add: after_close_def)
next
  case (Cons f fs)
  show ?case
  proof (cases wc)
    case True
    then show ?thesis by (simp add: after_close_def)
  next
    case False
    show ?thesis
    proof (cases "closes i")
      case True
      with False show ?thesis
        by (simp add: after_close_def globRead_loop_closed)
    next
      case no: False
      from Cons.IH [of "Suc i" False] False no show ?thesis
        by (simp add: after_close_def)
    qed
  qed
qed

lemma globRead_loop_no_EndReader:
  "Out EndReader \<notin> set (globRead_loop wait closes i wc files)"
  by (induction files arbitrary: i wc) auto

lemma readFolder_loop_closed:
  "pushes (fst (readFolder_loop h np maxMemory pause heapUsed cE cL i True fileNames)) = []"
  by (cases fileNames) simp_all

lemma after_close_before:
  "after_close (Out (Log Info m) # map Out (monitor_memory maxMemory pause u) @ tr)
     = after_close tr"
  by (simp add: after_close_def monitor_memory_def)

lemma readFolder_loop_after_close:
  "length (pushes (after_close (fst (readFolder_loop h np maxMemory pause heapUsed cE cL i wc fileNames))))
     \<le> 1"
proof (induction fileNames arbitrary: i wc)
  case Nil
  then show ?case by (simp add: after_close_def)
next
  case (Cons n ns)
  show ?case
  proof (cases wc)
    case True
    then show ?thesis by (simp add: after_close_def)
  next
    case unclosed: False
    show ?thesis
    proof (cases "fs_readFile h (path_join h np n)")
      case None
      with unclosed show ?thesis
        by (simp add: Let_def after_close_before) (simp add: after_close_def)
    next
      case (Some content)
      obtain tr r where rec: "readFolder_loop h np maxMemory pause heapUsed cE cL (Suc i)
          (cE i \<or> cL i) ns = (tr, r)"
        by (cases "readFolder_loop h np maxMemory pause heapUsed cE cL (Suc i) (cE i \<or> cL i) ns") auto
      have whole: "fst (readFolder_loop h np maxMemory pause heapUsed cE cL i wc (n # ns))
          = Out (Log Info (''[readFolder] processing '' @ quoted n))
              # map Out (monitor_memory maxMemory pause (heapUsed i))
              @ ((if cE i then [In WriterEnd] else [])
                 @ Out (Push (toString h content)) # (if cL i then [In WriterEnd] else []) @ tr)"
        using unclosed Some rec by (simp add: Let_def)
      show ?thesis
      proof (cases "cE i \<or> cL i")
        case True
        with rec have "pushes tr = []"
          using readFolder_loop_closed [of h np maxMemory pause heapUsed cE cL "Suc i" ns]
          by simp
        with True show ?thesis
          unfolding whole after_close_before
          by (auto simp: after_close_def)
      next
        case False
        with rec Cons.IH [of "Suc i" False]
        have "length (pushes (after_close tr)) \<le> 1" by simp
        with False show ?thesis
          unfolding whole after_close_before
          by (simp add: after_close_def)
      qed
    qed
  qed
qed

lemma readFolder_loop_no_EndReader:
  "Out EndReader \<notin> set (fst (readFolder_loop h np maxMemory pause heapUsed cE cL i wc fileNames))"
proof (induction fileNames arbitrary: i wc)
  case Nil
  then show ?case by simp
next
  case (Cons n ns)
  have "Out EndReader \<notin> set (fst (readFolder_loop h np maxMemory pause heapUsed cE cL (Suc i)
          (cE i \<or> cL i) ns))"
    by (rule Cons.IH)
  then show ?case
    by (auto simp: monitor_memory_def Let_def split: option.splits prod.splits)
qed

lemma substitute_ends_reader:
  "length (filter (\<lambda>b. b = EndReader) (fst (substitute h reg source replace wc e)))
     = (if e = WriterEnd then 1 else 0)"
  by (cases e) (simp_all add: Let_def split: sum.splits)

lemma envsub_ends_reader:
  "length (filter (\<lambda>b. b = EndReader) (fst (envsub h wc e))) = (if e = WriterEnd then 1 else 0)"
  by (cases e) simp_all

lemma getFileFromFolder_ends_reader:
  "length (filter (\<lambda>b. b = EndReader) (fst (getFileFromFolder h folderPath wc e)))
     = (if e = WriterEnd then 1 else 0)"
  by (cases e) (simp_all add: Let_def split: option.splits)

lemma unzipFile_ends_reader:
  "length (filter (\<lambda>b. b = EndReader) (fst (unzipFile h outputAsBuffer wc e)))
     = (if e = WriterEnd then 1 else 0)"
  by (cases e) (simp_all add: unzip_entries_no_EndReader split: sum.splits)

lemma gunzipFile_ends_reader:
  "length (filter (\<lambda>b. b = EndReader) (fst (gunzipFile h outputAsBuffer wc e)))
     = (if e = WriterEnd then 1 else 0)"
  by (cases e) (simp_all split: sum.splits)

lemma fst_readFolder_start:
  "fst (readFolder_start h np maxMemory pause heapUsed cE cL wc fileNames)
     = fst (readFolder_loop h np maxMemory pause heapUsed cE cL 0 wc fileNames)
       @ (if snd (readFolder_loop h np maxMemory pause heapUsed cE cL 0 wc fileNames) = None
          then [Out EndWriter] else [])"
  by (simp add: readFolder_start_def split: prod.splits option.splits)

section \<open>Lemmas on replaceAll\<close>

text \<open>
  For a non-empty search text and a replacement without a dollar sign, \<^verbatim>\<open>replaceAll\<close>
  with a string as search value replaces every occurrence.
\<close>

lemma prefix_take_iff: "prefix s x \<longleftrightarrow> take (length s) x = s"
proof
  assume "prefix s x"
  then obtain z where "x = s @ z" by (auto simp: prefix_def)
  then show "take (length s) x = s" by simp
next
  assume "take (length s) x = s"
  then show "prefix s x" by (metis take_is_prefix)
qed

lemma GetSubstitution_plain: "CHR ''$'' \<notin> set r \<Longrightarrow> GetSubstitution m str p r = r"
  by (induction r) auto

lemma StringIndexOf_Some:
  assumes "StringIndexOf str s i = Some p" and "s \<noteq> []"
  shows "take (length s) (drop p str) = s"
    and "\<And>j. i \<le> j \<Longrightarrow> j < p \<Longrightarrow> take (length s) (drop j str) \<noteq> s"
proof -
  define N where "N = Suc (length str - length s)"
  let ?P = "\<lambda>j. take (length s) (drop j str) = s"
  from assms have f: "List.find ?P [i ..< N] = Some p"
    unfolding N_def
    by (auto simp: StringIndexOf_def Let_def simp del: upt_Suc split: if_splits)
  then obtain k where k: "k < length [i ..< N]" "?P ([i ..< N] ! k)" "p = [i ..< N] ! k"
      "\<forall>j<k. \<not> ?P ([i ..< N] ! j)"
    unfolding find_Some_iff by blast
  from k(1) have pk: "[i ..< N] ! k = i + k" by (intro nth_upt) simp
  with k(2,3) show "take (length s) (drop p str) = s" by simp
  fix j assume j: "i \<le> j" "j < p"
  with k(3) pk have lt: "j - i < k" by simp
  with k(1) have "[i ..< N] ! (j - i) = i + (j - i)" by (intro nth_upt) simp
  with j have "[i ..< N] ! (j - i) = j" by simp
  with k(4) lt show "take (length s) (drop j str) \<noteq> s" by metis
qed

lemma StringIndexOf_None:
  assumes "StringIndexOf str s i = None" and "s \<noteq> []" and "i \<le> j"
  shows "take (length s) (drop j str) \<noteq> s"
proof -
  define N where "N = Suc (length str - length s)"
  show ?thesis
  proof (cases "j < N \<and> \<not> length str < length s")
    case True
    with assms have "List.find (\<lambda>j. take (length s) (drop j str) = s) [i ..< N] = None"
      unfolding N_def
      by (auto simp: StringIndexOf_def Let_def simp del: upt_Suc split: if_splits)
    then have "\<forall>x \<in> set [i ..< N]. take (length s) (drop x str) \<noteq> s"
      unfolding find_None_iff by blast
    moreover from True assms(3) have "j \<in> set [i ..< N]" by simp
    ultimately show ?thesis by blast
  next
    case False
    with assms(2) have "length (drop j str) < length s" unfolding N_def by (cases s) auto
    then have "length (take (length s) (drop j str)) < length s" by simp
    then show ?thesis by (metis less_irrefl)
  qed
qed

lemma replace_every_skip:
  assumes "\<And>j. j < n \<Longrightarrow> take (length s) (drop j x) \<noteq> s" and "n \<le> length x"
  shows "replace_every s r x = take n x @ replace_every s r (drop n x)"
  using assms
proof (induction n arbitrary: x)
  case 0
  then show ?case by simp
next
  case (Suc m)
  from Suc.prems(2) obtain c cs where x: "x = c # cs" by (cases x) auto
  from Suc.prems(1) [of 0] have "take (length s) x \<noteq> s" by simp
  then have np: "\<not> prefix s (c # cs)" by (simp add: prefix_take_iff x)
  have "replace_every s r cs = take m cs @ replace_every s r (drop m cs)"
  proof (rule Suc.IH)
    fix j assume "j < m"
    then have "Suc j < Suc m" by simp
    from Suc.prems(1) [OF this] show "take (length s) (drop j cs) \<noteq> s" by (simp add: x)
  next
    from Suc.prems(2) show "m \<le> length cs" by (simp add: x)
  qed
  with np show ?case by (simp add: x)
qed

lemma replace_every_at:
  assumes "take (length s) (drop p str) = s" and "s \<noteq> []"
  shows "replace_every s r (drop p str) = r @ replace_every s r (drop (p + length s) str)"
proof -
  from assms have "drop p str \<noteq> []" by auto
  then obtain c cs where d: "drop p str = c # cs" by (cases "drop p str") auto
  from assms(1) have "prefix s (c # cs)" by (simp add: prefix_take_iff d [symmetric])
  with assms(2) have "replace_every s r (c # cs) = r @ replace_every s r (drop (length s) (c # cs))"
    by simp
  then show ?thesis by (simp add: d [symmetric] add.commute)
qed

lemma replaceAll_result_replace_every:
  assumes "s \<noteq> []" and "CHR ''$'' \<notin> set r"
  shows "e \<le> length str \<Longrightarrow>
     replaceAll_result str s r e (matchPositions str s e) = replace_every s r (drop e str)"
  using assms(1)
proof (induction str s e rule: matchPositions.induct)
  case (1 str s e)
  note s = \<open>s \<noteq> []\<close>
  show ?case
  proof (cases "StringIndexOf str s e")
    case None
    then have mp: "matchPositions str s e = []" by (simp add: matchPositions.simps)
    have "replace_every s r (drop e str)
        = take (length (drop e str)) (drop e str)
            @ replace_every s r (drop (length (drop e str)) (drop e str))"
    proof (rule replace_every_skip)
      fix j
      have "take (length s) (drop (j + e) str) \<noteq> s"
        using None s by (rule StringIndexOf_None) simp
      then show "take (length s) (drop j (drop e str)) \<noteq> s" by simp
    qed simp
    then show ?thesis by (simp add: mp)
  next
    case (Some p)
    from Some have b: "e \<le> p \<and> p + length s \<le> length str" by (rule StringIndexOf_bounds)
    from s have m: "max (Suc 0) (length s) = length s" by (cases s) auto
    from Some have mp: "matchPositions str s e = p # matchPositions str s (p + length s)"
      by (simp add: matchPositions.simps [of str s e] m)
    have ih: "replaceAll_result str s r (p + length s) (matchPositions str s (p + length s))
        = replace_every s r (drop (p + length s) str)"
      using "1.IH" [OF Some] b s by (simp add: m)
    have at: "replace_every s r (drop p str) = r @ replace_every s r (drop (p + length s) str)"
      using StringIndexOf_Some(1) [OF Some s] s by (rule replace_every_at)
    have "replace_every s r (drop e str)
        = take (p - e) (drop e str) @ replace_every s r (drop (p - e) (drop e str))"
    proof (rule replace_every_skip)
      fix j assume "j < p - e"
      then have "e \<le> j + e" "j + e < p" by simp_all
      from StringIndexOf_Some(2) [OF Some s this]
      show "take (length s) (drop j (drop e str)) \<noteq> s" by simp
    next
      from b show "p - e \<le> length (drop e str)" by auto
    qed
    moreover from b have "drop (p - e) (drop e str) = drop p str" by simp
    ultimately have "replace_every s r (drop e str)
        = take (p - e) (drop e str) @ r @ replace_every s r (drop (p + length s) str)"
      using at by simp
    then show ?thesis
      by (simp add: mp ih GetSubstitution_plain [OF assms(2)])
  qed
qed

lemma replaceAll_string_replace_every:
  "s \<noteq> [] \<Longrightarrow> CHR ''$'' \<notin> set r \<Longrightarrow> replaceAll_string x s r = replace_every s r x"
  using replaceAll_result_replace_every [of s r 0 x] by (simp add: replaceAll_string_def)


























section \<open>Failures of the codecs stay with their record\<close>

text \<open>
  C2. Claimed: for a buffer on which the codec fails, no record is pushed. The loop of
  \<^verbatim>\<open>unzipFile\<close> pushes each entry as it reads it, inside the \<^verbatim>\<open>try\<close>: for an archive
  whose second entry cannot be read, the first entry has been pushed when the error is
  logged.
\<close>

theorem partial_archive_counterexample:
  "AdmZip demo_zip [0x41]
     = Inr [\<lparr> entryName = ''e1'', getData = Inr [0x41] \<rparr>,
            \<lparr> entryName = ''e2'', getData = Inl ''bad crc'' \<rparr>,
            \<lparr> entryName = ''e3'', getData = Inr [0x41] \<rparr>]
   \<and> fst (unzipFile demo_zip False False (Data [0x41]))
     = [Log Info (''Unzipping received file '' @ quoted ''e1''), Push (Text (ascii [0x41])),
        Log Info (''Unzipping received file '' @ quoted ''e2''),
        Log Err ''Ignoring invalid ZIP file received'', Log Debug ''bad crc'']"
  by (simp add: demo_zip_def)

text \<open>
  C2, as the code has it. Whatever the buffer, the callback of \<^verbatim>\<open>unzipFile\<close> and of
  \<^verbatim>\<open>gunzipFile\<close> throws nothing, leaves the flag as it is and ends neither channel, and
  the run goes on with the events that follow, from the same state. When adm-zip cannot
  open the archive, or zlib cannot decompress the buffer, the actions are the error line
  and a line with the exception: nothing is pushed. When the archive opens, the entries
  before the first one that cannot be read are pushed, in archive order, and none after
  it; the error line is logged when there is such an entry.
\<close>

theorem codec_failure_stays_with_its_record:
  "snd (unzipFile h outputAsBuffer writerClosed (Data data)) = (writerClosed, None)
   \<and> EndWriter \<notin> set (fst (unzipFile h outputAsBuffer writerClosed (Data data)))
   \<and> EndReader \<notin> set (fst (unzipFile h outputAsBuffer writerClosed (Data data)))
   \<and> run (unzipFile h outputAsBuffer) writerClosed (Data data # es)
       = (case run (unzipFile h outputAsBuffer) writerClosed es of
            (tr, r) \<Rightarrow> (In (Data data)
                          # map Out (fst (unzipFile h outputAsBuffer writerClosed (Data data))) @ tr, r))
   \<and> (AdmZip h data = Inl ex \<longrightarrow>
        fst (unzipFile h outputAsBuffer writerClosed (Data data))
          = [Log Err ''Ignoring invalid ZIP file received'', Log Debug ex])
   \<and> (AdmZip h data = Inr entries \<longrightarrow>
        pushed (fst (unzipFile h outputAsBuffer writerClosed (Data data)))
          = map (\<lambda>e. if outputAsBuffer then Buffer (projr (getData e))
                      else Text (toString h (projr (getData e))))
              (takeWhile (\<lambda>e. \<not> isl (getData e)) entries)
        \<and> ((\<exists>e \<in> set entries. isl (getData e)) \<longrightarrow>
             Log Err ''Ignoring invalid ZIP file received''
               \<in> set (fst (unzipFile h outputAsBuffer writerClosed (Data data)))))
   \<and> (zlib_gunzip h data = Inl ex \<longrightarrow>
        gunzipFile h outputAsBuffer writerClosed (Data data)
          = ([Log Err ''Ignoring invalid GZIP file received'', Log Console ex], writerClosed, None))
   \<and> snd (gunzipFile h outputAsBuffer writerClosed (Data data)) = (writerClosed, None)
   \<and> run (gunzipFile h outputAsBuffer) writerClosed (Data data # es)
       = (case run (gunzipFile h outputAsBuffer) writerClosed es of
            (tr, r) \<Rightarrow> (In (Data data)
                          # map Out (fst (gunzipFile h outputAsBuffer writerClosed (Data data))) @ tr, r))"
proof (intro conjI impI)
  show "snd (unzipFile h outputAsBuffer writerClosed (Data data)) = (writerClosed, None)"
    by (simp split: sum.splits)
  show "EndWriter \<notin> set (fst (unzipFile h outputAsBuffer writerClosed (Data data)))"
    by (simp add: unzip_entries_no_end split: sum.splits)
  show "EndReader \<notin> set (fst (unzipFile h outputAsBuffer writerClosed (Data data)))"
    by (simp add: unzip_entries_no_end split: sum.splits)
  show "run (unzipFile h outputAsBuffer) writerClosed (Data data # es)
       = (case run (unzipFile h outputAsBuffer) writerClosed es of
            (tr, r) \<Rightarrow> (In (Data data)
                          # map Out (fst (unzipFile h outputAsBuffer writerClosed (Data data))) @ tr, r))"
    by (simp split: sum.splits prod.splits)
  show "snd (gunzipFile h outputAsBuffer writerClosed (Data data)) = (writerClosed, None)"
    by (simp split: sum.splits)
  show "run (gunzipFile h outputAsBuffer) writerClosed (Data data # es)
       = (case run (gunzipFile h outputAsBuffer) writerClosed es of
            (tr, r) \<Rightarrow> (In (Data data)
                          # map Out (fst (gunzipFile h outputAsBuffer writerClosed (Data data))) @ tr, r))"
    by (simp split: sum.splits prod.splits)
next
  assume "AdmZip h data = Inl ex"
  then show "fst (unzipFile h outputAsBuffer writerClosed (Data data))
          = [Log Err ''Ignoring invalid ZIP file received'', Log Debug ex]"
    by simp
next
  assume a: "AdmZip h data = Inr entries"
  then show "pushed (fst (unzipFile h outputAsBuffer writerClosed (Data data)))
          = map (\<lambda>e. if outputAsBuffer then Buffer (projr (getData e))
                      else Text (toString h (projr (getData e))))
              (takeWhile (\<lambda>e. \<not> isl (getData e)) entries)"
    by (simp add: pushed_unzip_entries)
  assume "\<exists>e \<in> set entries. isl (getData e)"
  with a show "Log Err ''Ignoring invalid ZIP file received''
               \<in> set (fst (unzipFile h outputAsBuffer writerClosed (Data data)))"
    by (simp add: unzip_entries_logs_failure)
next
  assume "zlib_gunzip h data = Inl ex"
  then show "gunzipFile h outputAsBuffer writerClosed (Data data)
          = ([Log Err ''Ignoring invalid GZIP file received'', Log Console ex], writerClosed, None)"
    by simp
qed

theorem codec_failure_stays_with_its_record_witness:
  "AdmZip demo [] = Inl ''bad zip'' \<and> zlib_gunzip demo [] = Inl ''bad gzip''
   \<and> pushes (fst (run (unzipFile demo False) False [Data [], Data [0x41], ReaderEnd]))
       = [Text (ascii [0x41])]
   \<and> pushes (fst (run (gunzipFile demo False) False [Data [], Data [0x41], ReaderEnd]))
       = [Text (ascii [0x41])]
   \<and> isl (getData \<lparr> entryName = ''e2'', getData = Inl ''bad crc'' \<rparr>)
   \<and> pushed (fst (unzipFile demo_zip False False (Data [0x41]))) = [Text (ascii [0x41])]
   \<and> pushes (fst (run (unzipFile demo_zip False) False [Data [0x41], Data [0x42]]))
       = [Text (ascii [0x41]), Text (ascii [0x42])]
   \<and> snd (run (unzipFile demo_zip False) False [Data [0x41], Data [0x42]]) = (False, [])"
  using codec_failure_stays_with_its_record
      [of demo False False "[]" "[Data [0x41], ReaderEnd]" "''bad zip''" "[]"]
    codec_failure_stays_with_its_record
      [of demo False False "[]" "[Data [0x41], ReaderEnd]" "''bad gzip''" "[]"]
    codec_failure_stays_with_its_record
      [of demo_zip False False "[0x41]" "[Data [0x42]]" "[]"
          "[\<lparr> entryName = ''e1'', getData = Inr [0x41] \<rparr>,
            \<lparr> entryName = ''e2'', getData = Inl ''bad crc'' \<rparr>,
            \<lparr> entryName = ''e3'', getData = Inr [0x41] \<rparr>]"]
  by (simp add: demo_zip_def)

section \<open>Fetching a file by name\<close>

text \<open>
  C9. For a name whose path under the base directory can be read, the callback of
  \<^verbatim>\<open>getFileFromFolder\<close> pushes exactly one record, the text of the file. When the read
  fails the callback throws: it has logged its line and pushed nothing, and no
  \<^verbatim>\<open>try\<close> of the stage holds the exception back (as one does in \<^verbatim>\<open>unzipFile\<close>), so the
  run lists it. The stage keeps its callbacks, and the events that follow are handled.
\<close>

theorem getFileFromFolder_one_record_or_fatal:
  "(fs_readFile h (path_join h (path_resolve h folderPath) name) = Some file \<longrightarrow>
      getFileFromFolder h folderPath writerClosed (Data name)
        = ([Log Info (''Reading file at '' @ quoted (path_join h (path_resolve h folderPath) name)),
            Push (toString h file)], writerClosed, None))
   \<and> (fs_readFile h (path_join h (path_resolve h folderPath) name) = None \<longrightarrow>
      getFileFromFolder h folderPath writerClosed (Data name)
        = ([Log Info (''Reading file at '' @ quoted (path_join h (path_resolve h folderPath) name))],
           writerClosed, Some IOError)
      \<and> run (getFileFromFolder h folderPath) writerClosed (Data name # es)
        = (case run (getFileFromFolder h folderPath) writerClosed es of
             (tr, writerClosed', errs) \<Rightarrow>
               (In (Data name)
                  # Out (Log Info (''Reading file at ''
                          @ quoted (path_join h (path_resolve h folderPath) name))) # tr,
                writerClosed', IOError # errs)))"
  by (simp split: prod.splits)

theorem getFileFromFolder_one_record_or_fatal_witness:
  "fs_readFile demo (path_join demo (path_resolve demo ''/data'') ''a.txt'') = Some (bytes ''hi'')
   \<and> pushes (fst (run (getFileFromFolder demo ''/data'') False [Data ''a.txt'']))
       = [ascii (bytes ''hi'')]
   \<and> snd (snd (run (getFileFromFolder demo ''/data'') False [Data ''a.txt''])) = []
   \<and> fst (snd (getFileFromFolder demo ''/data'' False (Data ''a.txt''))) = False
   \<and> fs_readFile demo (path_join demo (path_resolve demo ''/data'') ''missing'') = None
   \<and> pushes (fst (run (getFileFromFolder demo ''/data'') False [Data ''missing''])) = []
   \<and> snd (snd (run (getFileFromFolder demo ''/data'') False [Data ''missing''])) = [IOError]
   \<and> pushes (fst (run (getFileFromFolder demo ''/data'') False [Data ''missing'', Data ''a.txt'']))
       = [ascii (bytes ''hi'')]
   \<and> snd (snd (run (getFileFromFolder demo ''/data'') False [Data ''missing'', Data ''a.txt'']))
       = [IOError]"
  using getFileFromFolder_one_record_or_fatal
      [of demo "''/data''" "''a.txt''" "bytes ''hi''" False "[]"]
    getFileFromFolder_one_record_or_fatal
      [of demo "''/data''" "''missing''" "[]" False "[]"]
    getFileFromFolder_one_record_or_fatal
      [of demo "''/data''" "''missing''" "[]" False "[Data ''a.txt'']"]
  by simp

section \<open>The pattern reader\<close>

text \<open>
  C3. When every matched file can be read and the consumer never closes the output, the
  setup of \<^verbatim>\<open>globRead\<close> returns the contents of all matched files, in match order, as
  text or as bytes; the function it returns works on these contents alone and pushes
  each of them once, in that order.
\<close>

theorem globRead_one_record_per_file:
  assumes "\<forall>x \<in> set (glob h globPattern). fs_readFile h x \<noteq> None"
    and "\<forall>i. \<not> closes i"
  shows "\<exists>files. snd (globRead h globPattern binary) = Inr files
      \<and> files = map (\<lambda>x. if binary then Buffer (the (fs_readFile h x))
                          else Text (toString h (the (fs_readFile h x)))) (glob h globPattern)
      \<and> pushes (globRead_start wait closeOnEnd closes False files) = files
      \<and> length (pushes (globRead_start wait closeOnEnd closes False files))
           = length (glob h globPattern)"
proof -
  let ?files = "map (\<lambda>x. if binary then Buffer (the (fs_readFile h x))
                          else Text (toString h (the (fs_readFile h x)))) (glob h globPattern)"
  from assms(1) have "those (map (fs_readFile h) (glob h globPattern))
      = Some (map (\<lambda>x. the (fs_readFile h x)) (glob h globPattern))"
    by (rule those_map_Some)
  then have res: "snd (globRead h globPattern binary) = Inr ?files"
    by (simp add: globRead_def Let_def comp_def)
  have "pushes (globRead_start wait closeOnEnd closes False ?files) = ?files"
    using assms(2)
    by (simp add: globRead_start_def pushes_append pushes_globRead_loop_open)
  with res show ?thesis by simp
qed

theorem globRead_one_record_per_file_witness:
  "glob demo ''*.txt'' = [''a.txt'', ''b.txt'']
   \<and> snd (globRead demo ''*.txt'' False) = Inr [Text (ascii (bytes ''hi'')), Text (ascii (bytes ''yo''))]
   \<and> pushes (globRead_start 0 True never False [Text (ascii (bytes ''hi'')), Text (ascii (bytes ''yo''))])
       = [Text (ascii (bytes ''hi'')), Text (ascii (bytes ''yo''))]"
  using globRead_one_record_per_file [of demo "''*.txt''" never False 0 True]
  by (simp add: never_def)

text \<open>
  C10. When a matched file cannot be read, the setup of \<^verbatim>\<open>globRead\<close> is rejected: its
  only actions are the information lines of the files it set out to read, and no
  function is returned, so nothing is pushed and the output is not ended.
\<close>

theorem globRead_unreadable_file_rejects_setup:
  assumes "x \<in> set (glob h globPattern)" and "fs_readFile h x = None"
  shows "snd (globRead h globPattern binary) = Inl IOError
     \<and> (\<forall>a \<in> set (fst (globRead h globPattern binary)). \<exists>msg. a = Log Info msg)
     \<and> globRead_run h globPattern wait closeOnEnd binary closes writerClosed
         = (map Out (fst (globRead h globPattern binary)), Some IOError)"
proof -
  from assms have "those (map (fs_readFile h) (glob h globPattern)) = None"
    by (rule those_map_None)
  moreover from assms(1) have "glob h globPattern \<noteq> []" by auto
  ultimately show ?thesis
    by (auto simp: globRead_def globRead_run_def Let_def)
qed

theorem globRead_unreadable_file_rejects_setup_witness:
  "''x.bad'' \<in> set (glob demo ''*.bad'') \<and> fs_readFile demo ''x.bad'' = None
   \<and> snd (globRead demo ''*.bad'' False) = Inl IOError
   \<and> pushes (fst (globRead_run demo ''*.bad'' 0 True False never False)) = []
   \<and> Out EndWriter \<notin> set (fst (globRead_run demo ''*.bad'' 0 True False never False))
   \<and> snd (globRead_run demo ''*.bad'' 0 True False never False) = Some IOError"
  using globRead_unreadable_file_rejects_setup [of "''x.bad''" demo "''*.bad''" False 0 True never False]
  by (simp add: globRead_def)

text \<open>
  C8. Claimed: for a pattern that matches nothing, no record, a warning, and the end of
  the output. The end depends on \<^verbatim>\<open>closeOnEnd\<close>: with the flag unset the run is the
  warning alone.
\<close>

theorem globRead_no_match_counterexample:
  "glob demo ''*.none'' = []
   \<and> Out EndWriter \<notin> set (fst (globRead_run demo ''*.none'' 0 False False never False))"
  by (simp add: globRead_run_def globRead_def globRead_start_def)

text \<open>
  C8, as the code has it. For a pattern that matches nothing the whole run is the warning
  followed, when \<^verbatim>\<open>closeOnEnd\<close> is set, by the end of the output and, when it is unset,
  by nothing; no record is pushed and no exception is thrown.
\<close>

theorem globRead_no_match:
  assumes "glob h globPattern = []"
  shows "globRead_run h globPattern wait closeOnEnd binary closes writerClosed =
     (Out (Log Warn (''No files found for glob pattern '' @ quoted globPattern
                       @ ''. Double check the pattern if this is unexpected.''))
        # (if closeOnEnd then [Out EndWriter] else []), None)"
  using assms by (simp add: globRead_run_def globRead_def globRead_start_def)

theorem globRead_no_match_witness:
  "glob demo ''*.none'' = []
   \<and> pushes (fst (globRead_run demo ''*.none'' 0 True False never False)) = []
   \<and> count_item (Out EndWriter) (fst (globRead_run demo ''*.none'' 0 True False never False)) = 1"
  using globRead_no_match [of demo "''*.none''" 0 True False never False]
  by (simp add: count_item_def)

section \<open>The folder reader\<close>

text \<open>
  C6. Claimed: the pause is taken when the memory in use exceeds the configured threshold,
  a number of bytes. With the threshold 3 and 1000 bytes in use the loop does not pause.
\<close>

theorem readFolder_threshold_counterexample:
  "(3::real) < real (steady 1000 0)
   \<and> fst (readFolder_start demo ''/data'' 3 5000 (steady 1000) never never False [''a.txt''])
       = [Out (Log Info (''[readFolder] processing '' @ quoted ''a.txt'')),
          Out (Push (ascii (bytes ''hi''))), Out EndWriter]"
  by (simp add: readFolder_start_def steady_def never_def monitor_memory_def)

text \<open>
  C6, as the code has it. Each iteration that finds the writer open first logs the name
  and then, when the sample in bytes exceeds \<open>maxMemory * 1024 * 1024 * 1024\<close> (the
  configured number counts gibibytes), warns and sleeps for \<open>pause\<close> milliseconds, before
  anything else of that iteration. In a run that is never closed and reads every file,
  the trace is, file after file, the log line, the warning and the pause of the files
  whose sample is over the threshold, and the push; then the end of the output.
\<close>

theorem readFolder_pauses_over_threshold:
  "(\<exists>rest. fst (readFolder_loop h np maxMemory pause heapUsed cE cL i False (fileName # fileNames))
       = Out (Log Info (''[readFolder] processing '' @ quoted fileName))
           # (if real (heapUsed i) > maxMemory * 1024 * 1024 * 1024
              then [Out (Log Warn ''[readFolder] Phew! too much data...waiting''), Out (Sleep pause)]
              else []) @ rest)
   \<and> ((\<forall>n \<in> set fileNames. fs_readFile h (path_join h np n) \<noteq> None)
        \<and> (\<forall>i. \<not> cE i) \<and> (\<forall>i. \<not> cL i) \<longrightarrow>
       fst (readFolder_start h np maxMemory pause heapUsed cE cL False fileNames)
       = concat (map (\<lambda>(k, n). Out (Log Info (''[readFolder] processing '' @ quoted n))
                   # (if real (heapUsed k) > maxMemory * 1024 * 1024 * 1024
                      then [Out (Log Warn ''[readFolder] Phew! too much data...waiting''),
                            Out (Sleep pause)]
                      else [])
                   @ [Out (Push (toString h (the (fs_readFile h (path_join h np n)))))])
                 (zip [0 ..< length fileNames] fileNames)) @ [Out EndWriter])"
proof (intro conjI impI)
  show "\<exists>rest. fst (readFolder_loop h np maxMemory pause heapUsed cE cL i False (fileName # fileNames))
       = Out (Log Info (''[readFolder] processing '' @ quoted fileName))
           # (if real (heapUsed i) > maxMemory * 1024 * 1024 * 1024
              then [Out (Log Warn ''[readFolder] Phew! too much data...waiting''), Out (Sleep pause)]
              else []) @ rest"
    by (cases "fs_readFile h (path_join h np fileName)")
       (auto simp: monitor_memory_def Let_def split: prod.splits)
next
  assume a: "(\<forall>n \<in> set fileNames. fs_readFile h (path_join h np n) \<noteq> None)
        \<and> (\<forall>i. \<not> cE i) \<and> (\<forall>i. \<not> cL i)"
  then have "readFolder_loop h np maxMemory pause heapUsed cE cL 0 False fileNames
     = (concat (map (\<lambda>(k, n). Out (Log Info (''[readFolder] processing '' @ quoted n))
                   # map Out (monitor_memory maxMemory pause (heapUsed k))
                   @ [Out (Push (toString h (the (fs_readFile h (path_join h np n)))))])
                 (zip [0 ..< 0 + length fileNames] fileNames)), None)"
    by (intro readFolder_loop_open) auto
  then show "fst (readFolder_start h np maxMemory pause heapUsed cE cL False fileNames)
       = concat (map (\<lambda>(k, n). Out (Log Info (''[readFolder] processing '' @ quoted n))
                   # (if real (heapUsed k) > maxMemory * 1024 * 1024 * 1024
                      then [Out (Log Warn ''[readFolder] Phew! too much data...waiting''),
                            Out (Sleep pause)]
                      else [])
                   @ [Out (Push (toString h (the (fs_readFile h (path_join h np n)))))])
                 (zip [0 ..< length fileNames] fileNames)) @ [Out EndWriter]"
    by (simp add: readFolder_start_def monitor_memory_def if_distrib cong: if_cong)
qed

theorem readFolder_pauses_over_threshold_witness:
  "fs_readFile demo (path_join demo ''/data'' ''a.txt'') \<noteq> None
   \<and> real (steady 5000000000 0) > 3 * 1024 * 1024 * 1024
   \<and> fst (readFolder_start demo ''/data'' 3 5000 (steady 5000000000) never never False [''a.txt''])
       = [Out (Log Info (''[readFolder] processing '' @ quoted ''a.txt'')),
          Out (Log Warn ''[readFolder] Phew! too much data...waiting''), Out (Sleep 5000),
          Out (Push (ascii (bytes ''hi''))), Out EndWriter]"
  using readFolder_pauses_over_threshold
    [of demo "''/data''" 3 5000 "steady 5000000000" never never 0 "''a.txt''" "[''a.txt'']"]
  by (simp add: never_def steady_def)

text \<open>
  Called with the writer already closed, the returned function pushes nothing and ends
  the output. In a run that is never closed, over a listing whose every name can be read
  as a file, it pushes the text of each listed name once, in listing order, and ends the
  output once, as its last action.
\<close>

lemma readFolder_closed_before_start:
  "fs_access demo (path_normalize demo ''/data'')
   \<and> fs_readdir demo (path_normalize demo ''/data'') = Some [''a.txt'']
   \<and> fs_readFile demo (path_join demo ''/data'' ''a.txt'') = Some (bytes ''hi'')
   \<and> readFolder_start demo ''/data'' 3 5000 (steady 0) never never True [''a.txt'']
       = ([Out (Log Info ''Writer closed, so stopping pushing data''), Out EndWriter], None)"
  by (simp add: readFolder_start_def)

lemma readFolder_readable_listing:
  assumes "fs_access h (path_normalize h folder)"
    and "fs_readdir h (path_normalize h folder) = Some fileNames"
    and "\<forall>n \<in> set fileNames. fs_readFile h (path_join h (path_normalize h folder) n) \<noteq> None"
    and "\<forall>i. \<not> cE i" and "\<forall>i. \<not> cL i"
  shows "snd (readFolder h folder) = Inr (path_normalize h folder, fileNames)
     \<and> snd (readFolder_start h (path_normalize h folder) maxMemory pause heapUsed cE cL False fileNames)
         = None
     \<and> pushes (fst (readFolder_start h (path_normalize h folder) maxMemory pause heapUsed cE cL False
                       fileNames))
         = map (\<lambda>n. toString h (the (fs_readFile h (path_join h (path_normalize h folder) n)))) fileNames
     \<and> count_item (Out EndWriter)
          (fst (readFolder_start h (path_normalize h folder) maxMemory pause heapUsed cE cL False
                  fileNames)) = 1
     \<and> last (fst (readFolder_start h (path_normalize h folder) maxMemory pause heapUsed cE cL False
                     fileNames)) = Out EndWriter"
proof -
  let ?np = "path_normalize h folder"
  let ?loop = "readFolder_loop h ?np maxMemory pause heapUsed cE cL 0 False fileNames"
  have loop: "?loop
     = (concat (map (\<lambda>(k, n). Out (Log Info (''[readFolder] processing '' @ quoted n))
                   # map Out (monitor_memory maxMemory pause (heapUsed k))
                   @ [Out (Push (toString h (the (fs_readFile h (path_join h ?np n)))))])
                 (zip [0 ..< 0 + length fileNames] fileNames)), None)"
    using assms(3-5) by (rule readFolder_loop_open)
  have start: "readFolder_start h ?np maxMemory pause heapUsed cE cL False fileNames
      = (fst ?loop @ [Out EndWriter], None)"
    unfolding readFolder_start_def loop by simp
  have p: "pushes (fst ?loop)
      = map (\<lambda>n. toString h (the (fs_readFile h (path_join h ?np n)))) fileNames"
    unfolding loop fst_conv by (rule pushes_iterations) simp
  have "Out EndWriter \<notin> set (fst ?loop)" by (rule readFolder_loop_no_end)
  then have c: "count_item (Out EndWriter) (fst ?loop) = 0" by (rule count_item_absent)
  have s: "snd (readFolder h folder) = Inr (?np, fileNames)"
    using assms(1,2) by (simp add: readFolder_def Let_def)
  show ?thesis
    unfolding start using s p c by (simp add: pushes_append count_item_append count_item_def)
qed

text \<open>
  C7. The listing of \<^verbatim>\<open>readdir\<close> with \<^verbatim>\<open>recursive: true\<close> names the subfolders along with
  the files, and the loop reads every listed name as a file. For a folder that holds
  \<open>a.txt\<close> and a subfolder \<open>sub\<close> with \<open>b.txt\<close>, the returned function pushes \<open>a.txt\<close>,
  then throws on \<open>sub\<close>: \<open>sub/b.txt\<close> is never pushed and the output is never ended.
\<close>

theorem readFolder_subfolder_throws:
  "readFolder demo_nested ''/data''
     = ([Log Info ''Reading these files: a.txt,sub,sub/b.txt''],
        Inr (''/data'', [''a.txt'', ''sub'', ''sub/b.txt'']))
   \<and> fs_readFile demo_nested (path_join demo_nested ''/data'' ''sub/b.txt'') = Some (bytes ''yo'')
   \<and> readFolder_start demo_nested ''/data'' 3 5000 (steady 0) never never False
         [''a.txt'', ''sub'', ''sub/b.txt'']
     = ([Out (Log Info (''[readFolder] processing '' @ quoted ''a.txt'')),
         Out (Push (ascii (bytes ''hi''))),
         Out (Log Info (''[readFolder] processing '' @ quoted ''sub''))],
        Some IOError)"
  by (simp add: demo_nested_def readFolder_def readFolder_start_def never_def steady_def
        monitor_memory_def)


section \<open>Substitution\<close>

text \<open>
  In literal mode, with a non-empty source and a replacement without a dollar sign, the
  callback pushes one record, the text with every occurrence of the source replaced. A
  dollar pattern in the replacement is expanded by \<^verbatim>\<open>replaceAll\<close>.
\<close>

lemma substitute_literal_replaces_every:
  assumes "source \<noteq> []" and "CHR ''$'' \<notin> set replace"
  shows "substitute h (Str source) source replace writerClosed (Data x)
     = ([Log Info (''Replacing '' @ quoted source @ '' by '' @ quoted replace @ '' on input text''),
         Push (replace_every source replace x)], writerClosed, None)"
  using assms by (simp add: replaceAll_string_replace_every)

lemma substitute_dollar_pattern_example:
  "replaceAll_string ''a-b'' ''-'' ''$$'' = ''a$b''"
  by code_simp

text \<open>
  C4. In regexp mode the search value is \<^verbatim>\<open>new RegExp(source)\<close>, a RegExp without the
  \<open>g\<close> flag (or the constructor throws). \<^verbatim>\<open>replaceAll\<close> refuses such a search value, so
  the callback logs its line and throws a TypeError for every record, pushing nothing:
  here for the source \<open>na\<close>, the replacement \<open>NA\<close> and the record \<open>banana\<close>.
\<close>

theorem substitute_regexp_mode_throws:
  "(substitute_reg h source True = Inr (RegExp source [])
      \<or> substitute_reg h source True = Inl SyntaxError)
   \<and> substitute h (RegExp source []) source replace writerClosed (Data x)
       = ([Log Info (''Replacing '' @ quoted source @ '' by '' @ quoted replace @ '' on input text'')],
          writerClosed, Some TypeError)
   \<and> substitute_reg demo ''na'' True = Inr (RegExp ''na'' [])
   \<and> pushes (fst (run (substitute demo (RegExp ''na'' []) ''na'' ''NA'') False [Data ''banana''])) = []
   \<and> snd (snd (run (substitute demo (RegExp ''na'' []) ''na'' ''NA'') False [Data ''banana'']))
       = [TypeError]"
  by (simp add: substitute_reg_def)

section \<open>The close signal\<close>

text \<open>
  C1. Claimed: every stage, once it has observed the close of its output, pushes nothing
  more and ends its own input exactly once. The callback of \<^verbatim>\<open>substitute\<close> for a record
  does not consult the flag: a record delivered after the close signal is pushed. And
  \<^verbatim>\<open>globRead\<close> has no input: closed during its first push, it ends no reader.
\<close>

theorem push_after_close_counterexample:
  "pushes (after_close (fst (run (substitute demo (Str ''na'') ''na'' ''NA'') False
                               [WriterEnd, Data ''banana''])))
     = [''baNANA'']
   \<and> In WriterEnd \<in> set (globRead_start 0 True at_first False [Text ''a'', Text ''b''])
   \<and> count_item (Out EndReader) (globRead_start 0 True at_first False [Text ''a'', Text ''b'']) = 0"
proof -
  have "replaceAll_string ''banana'' ''na'' ''NA'' = ''baNANA''"
    by code_simp
  then have "pushes (after_close (fst (run (substitute demo (Str ''na'') ''na'' ''NA'') False
                               [WriterEnd, Data ''banana''])))
     = [''baNANA'']"
    by (simp add: after_close_def)
  moreover have "In WriterEnd \<in> set (globRead_start 0 True at_first False [Text ''a'', Text ''b''])"
    by (simp add: globRead_start_def at_first_def)
  moreover have "count_item (Out EndReader)
      (globRead_start 0 True at_first False [Text ''a'', Text ''b'']) = 0"
    by (simp add: globRead_start_def at_first_def count_item_def)
  ultimately show ?thesis by (intro conjI)
qed

text \<open>
  C1, as the code has it. \<^verbatim>\<open>globRead\<close> checks the flag before every push: after the
  close signal is delivered it pushes nothing, called with the flag set it pushes nothing,
  and it never ends a reader. \<^verbatim>\<open>readFolder\<close> checks the flag at the head of each
  iteration: after the close signal it pushes at most the record of the iteration under
  way, called with the flag set it pushes nothing, and it never ends a reader. Each of
  \<^verbatim>\<open>substitute\<close>, \<^verbatim>\<open>envsub\<close>, \<^verbatim>\<open>getFileFromFolder\<close>, \<^verbatim>\<open>unzipFile\<close> and
  \<^verbatim>\<open>gunzipFile\<close> ends its reader once for each close signal it handles, and at no other
  time: in every run the ends of the reader are as many as the close signals.
\<close>

theorem close_stops_producer_and_ends_reader:
  "pushes (after_close (globRead_start wait closeOnEnd closes writerClosed files)) = []
   \<and> pushes (globRead_start wait closeOnEnd closes True files) = []
   \<and> count_item (Out EndReader) (globRead_start wait closeOnEnd closes writerClosed files) = 0
   \<and> length (pushes (after_close (fst (readFolder_start h np maxMemory pause heapUsed cE cL
                                          writerClosed fileNames)))) \<le> 1
   \<and> pushes (fst (readFolder_start h np maxMemory pause heapUsed cE cL True fileNames)) = []
   \<and> count_item (Out EndReader)
        (fst (readFolder_start h np maxMemory pause heapUsed cE cL writerClosed fileNames)) = 0
   \<and> count_item (Out EndReader) (fst (run (substitute h reg source replace) wc evs))
       = count_item (In WriterEnd) (fst (run (substitute h reg source replace) wc evs))
   \<and> count_item (Out EndReader) (fst (run (envsub h) wc evs))
       = count_item (In WriterEnd) (fst (run (envsub h) wc evs))
   \<and> count_item (Out EndReader) (fst (run (getFileFromFolder h folderPath) wc evs))
       = count_item (In WriterEnd) (fst (run (getFileFromFolder h folderPath) wc evs))
   \<and> count_item (Out EndReader) (fst (run (unzipFile h outputAsBuffer) wc bufs))
       = count_item (In WriterEnd) (fst (run (unzipFile h outputAsBuffer) wc bufs))
   \<and> count_item (Out EndReader) (fst (run (gunzipFile h outputAsBuffer) wc bufs))
       = count_item (In WriterEnd) (fst (run (gunzipFile h outputAsBuffer) wc bufs))"
proof (intro conjI)
  show "pushes (after_close (globRead_start wait closeOnEnd closes writerClosed files)) = []"
    unfolding globRead_start_def
    by (rule pushes_after_close_append) (simp_all add: globRead_loop_after_close)
  show "pushes (globRead_start wait closeOnEnd closes True files) = []"
    by (simp add: globRead_start_def pushes_append globRead_loop_closed)
  show "count_item (Out EndReader) (globRead_start wait closeOnEnd closes writerClosed files) = 0"
    by (rule count_item_absent) (simp add: globRead_start_def globRead_loop_no_EndReader)
  obtain tr r where loop: "readFolder_loop h np maxMemory pause heapUsed cE cL 0 writerClosed fileNames
      = (tr, r)"
    by (cases "readFolder_loop h np maxMemory pause heapUsed cE cL 0 writerClosed fileNames") auto
  have st: "fst (readFolder_start h np maxMemory pause heapUsed cE cL writerClosed fileNames)
      = tr @ (if r = None then [Out EndWriter] else [])"
    by (simp add: readFolder_start_def loop split: option.splits)
  from readFolder_loop_after_close [of h np maxMemory pause heapUsed cE cL 0 writerClosed fileNames]
  have "length (pushes (after_close tr)) \<le> 1" by (simp add: loop)
  then show "length (pushes (after_close (fst (readFolder_start h np maxMemory pause heapUsed cE cL
                                          writerClosed fileNames)))) \<le> 1"
    unfolding st after_close_def
    by (auto simp: dropWhile_append pushes_append)
  show "pushes (fst (readFolder_start h np maxMemory pause heapUsed cE cL True fileNames)) = []"
    by (simp add: fst_readFolder_start pushes_append readFolder_loop_closed)
  from readFolder_loop_no_EndReader [of h np maxMemory pause heapUsed cE cL 0 writerClosed fileNames]
  have "Out EndReader \<notin> set tr" by (simp add: loop)
  then show "count_item (Out EndReader)
        (fst (readFolder_start h np maxMemory pause heapUsed cE cL writerClosed fileNames)) = 0"
    unfolding st by (intro count_item_absent) simp
  show "count_item (Out EndReader) (fst (run (substitute h reg source replace) wc evs))
       = count_item (In WriterEnd) (fst (run (substitute h reg source replace) wc evs))"
    by (rule run_ends_reader) (rule substitute_ends_reader)
  show "count_item (Out EndReader) (fst (run (envsub h) wc evs))
       = count_item (In WriterEnd) (fst (run (envsub h) wc evs))"
    by (rule run_ends_reader) (rule envsub_ends_reader)
  show "count_item (Out EndReader) (fst (run (getFileFromFolder h folderPath) wc evs))
       = count_item (In WriterEnd) (fst (run (getFileFromFolder h folderPath) wc evs))"
    by (rule run_ends_reader) (rule getFileFromFolder_ends_reader)
  show "count_item (Out EndReader) (fst (run (unzipFile h outputAsBuffer) wc bufs))
       = count_item (In WriterEnd) (fst (run (unzipFile h outputAsBuffer) wc bufs))"
    by (rule run_ends_reader) (rule unzipFile_ends_reader)
  show "count_item (Out EndReader) (fst (run (gunzipFile h outputAsBuffer) wc bufs))
       = count_item (In WriterEnd) (fst (run (gunzipFile h outputAsBuffer) wc bufs))"
    by (rule run_ends_reader) (rule gunzipFile_ends_reader)
qed

section \<open>Environment interpolation\<close>




end
